theory Spec2Isabelle
  imports Complex_Main "HOL-Library.Sublist"
begin

section \<open>The in-memory incident store of the SOAR mock API (app.py)\<close>

text \<open>
  The store of app.py is two module-level globals: the list \<open>incidents\<close> of incident
  dictionaries and the counter \<open>id_counter["value"]\<close>. Every handler is modelled as a
  function that takes the store and returns its result together with the store it leaves.
  Python's unbounded integers are \<open>int\<close>; a text is a \<open>string\<close>, the UTF-8 bytes of the
  Python \<open>str\<close>, so that equal texts are equal strings and the empty text is the empty
  string. The method \<open>str.lower\<close> belongs to the interpreter, not to app.py: it is the
  parameter \<open>lower\<close> of the listing, and every result about the listing holds for every
  function in its place. An exception that leaves a handler is a value of \<open>error\<close>: the
  404 \<open>HTTPException\<close>, the 422 of the request validation, and the
  \<open>ZeroDivisionError\<close> of integer division.
\<close>

subsection \<open>Data model\<close>

datatype error = NotFound | ValidationFailure | ZeroDivisionError

text \<open>An incident dictionary: the keys "id", "title", "status", "severity".\<close>

record Incident =
  inc_id :: int
  title :: string
  status :: string
  severity :: string

text \<open>The validated request bodies: class IncidentCreate and class IncidentUpdate.\<close>

datatype IncidentCreate =
  IncidentCreate (create_title: string) (create_status: string) (create_severity: string)

datatype IncidentUpdate = IncidentUpdate (update_status: string)

record PaginatedResponse =
  resp_incidents :: "Incident list"
  resp_total :: int
  resp_page :: int
  resp_per_page :: int
  resp_total_pages :: int

record store =
  incidents :: "Incident list"
  id_counter :: int

text \<open>The state at import time: the three preloaded incidents and the counter at 3.\<close>

definition seed_incidents :: "Incident list" where
  "seed_incidents =
    [\<lparr>inc_id = 1, title = ''Phishing Email Campaign Detected'',
       status = ''open'', severity = ''high''\<rparr>,
     \<lparr>inc_id = 2, title = ''Malware Detected on Endpoint'',
       status = ''closed'', severity = ''medium''\<rparr>,
     \<lparr>inc_id = 3, title = ''Suspicious Login from Foreign IP'',
       status = ''under investigation'', severity = ''low''\<rparr>]"

definition seed_store :: store where
  "seed_store = \<lparr>incidents = seed_incidents, id_counter = 3\<rparr>"

subsection \<open>Python primitives used by the handlers\<close>

text \<open>
  The slice \<open>xs[start:stop]\<close> with integer bounds and step 1: a negative bound counts from
  the end, and every bound is clipped into \<open>0..len(xs)\<close>; an empty window is the empty list.
\<close>

definition clip_index :: "int \<Rightarrow> int \<Rightarrow> int" where
  "clip_index n i = (if i < 0 then max (i + n) 0 else min i n)"

definition py_slice :: "'a list \<Rightarrow> int \<Rightarrow> int \<Rightarrow> 'a list" where
  "py_slice xs start stop =
    (let n = int (length xs); lo = clip_index n start; hi = clip_index n stop
     in take (nat (hi - lo)) (drop (nat lo) xs))"

subsection \<open>Identifier allocator\<close>

text \<open>get_next_id: increment the counter under the lock and return the new value.\<close>

definition get_next_id :: "store \<Rightarrow> int \<times> store" where
  "get_next_id st =
    (let st' = st\<lparr>id_counter := id_counter st + 1\<rparr> in (id_counter st', st'))"

text \<open>The values returned by n successive calls of get_next_id.\<close>

fun allocate :: "nat \<Rightarrow> store \<Rightarrow> int list \<times> store" where
  "allocate 0 st = ([], st)"
| "allocate (Suc n) st =
    (let (v, st1) = get_next_id st; (vs, st2) = allocate n st1 in (v # vs, st2))"

subsection \<open>GET /incidents\<close>

text \<open>
  The two list comprehensions of get_incidents, with \<open>lower\<close> for \<open>str.lower\<close>. A filter
  that is None or the empty text is falsy, so its comprehension is skipped.
\<close>

definition apply_filters ::
  "(string \<Rightarrow> string) \<Rightarrow> Incident list \<Rightarrow> string option \<Rightarrow> string option
    \<Rightarrow> Incident list" where
  "apply_filters lower incs status_filter severity_filter =
    (let filtered_incidents = incs;
         filtered_incidents =
           (case status_filter of
              None \<Rightarrow> filtered_incidents
            | Some s \<Rightarrow>
                if s = [] then filtered_incidents
                else filter (\<lambda>i. lower (status i) = lower s) filtered_incidents);
         filtered_incidents =
           (case severity_filter of
              None \<Rightarrow> filtered_incidents
            | Some v \<Rightarrow>
                if v = [] then filtered_incidents
                else filter (\<lambda>i. lower (severity i) = lower v) filtered_incidents)
     in filtered_incidents)"

text \<open>
  The pagination of get_incidents. The floor division \<open>//\<close> raises ZeroDivisionError when
  the capped per_page is 0; HOL's \<open>div\<close> on \<open>int\<close> rounds down as \<open>//\<close> does.
\<close>

definition get_incidents ::
  "(string \<Rightarrow> string) \<Rightarrow> store \<Rightarrow> string option \<Rightarrow> string option \<Rightarrow> int \<Rightarrow> int
    \<Rightarrow> error + PaginatedResponse" where
  "get_incidents lower st status_filter severity_filter page per_page =
    (let filtered_incidents =
           apply_filters lower (incidents st) status_filter severity_filter;
         total = int (length filtered_incidents);
         per_page = min per_page 100
     in if per_page = 0 then Inl ZeroDivisionError
        else
          (let total_pages = (total + per_page - 1) div per_page;
               start = (page - 1) * per_page;
               stop = start + per_page;
               paginated_incidents = py_slice filtered_incidents start stop
           in Inr \<lparr>resp_incidents = paginated_incidents, resp_total = total,
                    resp_page = page, resp_per_page = per_page,
                    resp_total_pages = total_pages\<rparr>))"

subsection \<open>GET, POST, PATCH and DELETE of one incident\<close>

text \<open>The scan of get_incident: the first incident with the id, or none.\<close>

fun find_incident :: "Incident list \<Rightarrow> int \<Rightarrow> Incident option" where
  "find_incident [] incident_id = None"
| "find_incident (incident # rest) incident_id =
    (if inc_id incident = incident_id then Some incident
     else find_incident rest incident_id)"

definition get_incident :: "store \<Rightarrow> int \<Rightarrow> error + Incident" where
  "get_incident st incident_id =
    (case find_incident (incidents st) incident_id of
       Some incident \<Rightarrow> Inr incident
     | None \<Rightarrow> Inl NotFound)"

definition create_incident :: "store \<Rightarrow> IncidentCreate \<Rightarrow> Incident \<times> store" where
  "create_incident st incident_data =
    (let (new_id, st1) = get_next_id st;
         new_incident = \<lparr>inc_id = new_id, title = create_title incident_data,
                         status = create_status incident_data,
                         severity = create_severity incident_data\<rparr>
     in (new_incident, st1\<lparr>incidents := incidents st1 @ [new_incident]\<rparr>))"

text \<open>
  The scan of update_incident: the first incident with the id gets the new status in
  place and is returned; the result is that incident and the list after the assignment.
\<close>

fun update_scan ::
  "Incident list \<Rightarrow> int \<Rightarrow> string \<Rightarrow> (Incident \<times> Incident list) option" where
  "update_scan [] incident_id new_status = None"
| "update_scan (incident # rest) incident_id new_status =
    (if inc_id incident = incident_id
     then Some (incident\<lparr>status := new_status\<rparr>, incident\<lparr>status := new_status\<rparr> # rest)
     else (case update_scan rest incident_id new_status of
             None \<Rightarrow> None
           | Some (updated, rest') \<Rightarrow> Some (updated, incident # rest')))"

definition update_incident ::
  "store \<Rightarrow> int \<Rightarrow> IncidentUpdate \<Rightarrow> (error + Incident) \<times> store" where
  "update_incident st incident_id update_data =
    (case update_scan (incidents st) incident_id (update_status update_data) of
       Some (updated, incs') \<Rightarrow> (Inr updated, st\<lparr>incidents := incs'\<rparr>)
     | None \<Rightarrow> (Inl NotFound, st))"

text \<open>
  The scan of delete_incident: \<open>incidents.pop(i)\<close> at the first index whose incident has
  the id; the result is the popped incident and the list without it.
\<close>

fun delete_scan :: "Incident list \<Rightarrow> int \<Rightarrow> (Incident \<times> Incident list) option" where
  "delete_scan [] incident_id = None"
| "delete_scan (incident # rest) incident_id =
    (if inc_id incident = incident_id then Some (incident, rest)
     else (case delete_scan rest incident_id of
             None \<Rightarrow> None
           | Some (deleted_incident, rest') \<Rightarrow> Some (deleted_incident, incident # rest')))"

definition delete_incident :: "store \<Rightarrow> int \<Rightarrow> (error + Incident) \<times> store" where
  "delete_incident st incident_id =
    (case delete_scan (incidents st) incident_id of
       Some (deleted_incident, incs') \<Rightarrow> (Inr deleted_incident, st\<lparr>incidents := incs'\<rparr>)
     | None \<Rightarrow> (Inl NotFound, st))"

subsection \<open>Request validation\<close>

text \<open>
  A value of a JSON body, as the handlers receive it after parsing.
\<close>

datatype json =
  JNull
| JBool bool
| JNumber rat
| JString string
| JArray "json list"
| JObject "(string \<times> json) list"

text \<open>
  The check of one field declared \<open>str\<close>. A JSON text is taken as it is, whatever its
  length: no field of app.py has a length constraint. \<open>null\<close> is never a \<open>str\<close>. What
  becomes of any other value is decided by the validation library, not by app.py: it is
  the parameter \<open>coerce\<close>, which gives the text the value is read as, or nothing when the
  value is refused.
\<close>

definition str_field :: "(json \<Rightarrow> string option) \<Rightarrow> json \<Rightarrow> string option" where
  "str_field coerce v =
    (case v of
       JString s \<Rightarrow> Some s
     | JNull \<Rightarrow> None
     | _ \<Rightarrow> coerce v)"

text \<open>
  A validation library that refuses every value that is not a text, as pydantic 2 does
  with a number, a truth value, a list or an object.
\<close>

definition no_coercion :: "json \<Rightarrow> string option" where
  "no_coercion v = None"

text \<open>
  The text that a field of a request body provides: none when the field is left out,
  and none when its value does not pass the check of a \<open>str\<close> field.
\<close>

definition field_text :: "(json \<Rightarrow> string option) \<Rightarrow> json option \<Rightarrow> string option" where
  "field_text coerce field =
    (case field of
       None \<Rightarrow> None
     | Some v \<Rightarrow> str_field coerce v)"

text \<open>
  A request body gives each field a value or leaves it out (\<open>None\<close>). In IncidentCreate
  the fields title and severity are required (\<open>Field(...)\<close>) and status has the default
  "open"; in IncidentUpdate status is required. Every field that is given must pass the
  check of a \<open>str\<close> field. A body that fails validation is answered with 422 before the
  handler runs.
\<close>

definition validate_create ::
  "(json \<Rightarrow> string option) \<Rightarrow> json option \<Rightarrow> json option \<Rightarrow> json option
    \<Rightarrow> error + IncidentCreate" where
  "validate_create coerce title_field status_field severity_field =
    (case title_field of
       None \<Rightarrow> Inl ValidationFailure
     | Some tv \<Rightarrow>
        (case str_field coerce tv of
           None \<Rightarrow> Inl ValidationFailure
         | Some t \<Rightarrow>
            (case (case status_field of
                     None \<Rightarrow> Some ''open''
                   | Some sv \<Rightarrow> str_field coerce sv) of
               None \<Rightarrow> Inl ValidationFailure
             | Some s \<Rightarrow>
                (case severity_field of
                   None \<Rightarrow> Inl ValidationFailure
                 | Some vv \<Rightarrow>
                    (case str_field coerce vv of
                       None \<Rightarrow> Inl ValidationFailure
                     | Some v \<Rightarrow> Inr (IncidentCreate t s v))))))"

definition validate_update ::
  "(json \<Rightarrow> string option) \<Rightarrow> json option \<Rightarrow> error + IncidentUpdate" where
  "validate_update coerce status_field =
    (case status_field of
       None \<Rightarrow> Inl ValidationFailure
     | Some sv \<Rightarrow>
        (case str_field coerce sv of
           None \<Rightarrow> Inl ValidationFailure
         | Some s \<Rightarrow> Inr (IncidentUpdate s)))"

definition post_incidents ::
  "(json \<Rightarrow> string option) \<Rightarrow> store \<Rightarrow> json option \<Rightarrow> json option \<Rightarrow> json option
    \<Rightarrow> (error + Incident) \<times> store" where
  "post_incidents coerce st title_field status_field severity_field =
    (case validate_create coerce title_field status_field severity_field of
       Inl e \<Rightarrow> (Inl e, st)
     | Inr incident_data \<Rightarrow>
        (let (new_incident, st') = create_incident st incident_data
         in (Inr new_incident, st')))"

definition patch_incident ::
  "(json \<Rightarrow> string option) \<Rightarrow> store \<Rightarrow> int \<Rightarrow> json option
    \<Rightarrow> (error + Incident) \<times> store" where
  "patch_incident coerce st incident_id status_field =
    (case validate_update coerce status_field of
       Inl e \<Rightarrow> (Inl e, st)
     | Inr update_data \<Rightarrow> update_incident st incident_id update_data)"

subsection \<open>Sequences of mutating requests\<close>

datatype request =
  Create IncidentCreate
| Update int IncidentUpdate
| Delete int

fun step :: "store \<Rightarrow> request \<Rightarrow> (error + Incident) \<times> store" where
  "step st (Create incident_data) =
    (let (new_incident, st') = create_incident st incident_data in (Inr new_incident, st'))"
| "step st (Update incident_id update_data) = update_incident st incident_id update_data"
| "step st (Delete incident_id) = delete_incident st incident_id"

fun run :: "store \<Rightarrow> request list \<Rightarrow> store" where
  "run st [] = st"
| "run st (r # rs) = run (snd (step st r)) rs"

text \<open>The ids that the create requests of a sequence return, in the order of the calls.\<close>

fun created_ids :: "store \<Rightarrow> request list \<Rightarrow> int list" where
  "created_ids st [] = []"
| "created_ids st (Create incident_data # rs) =
    inc_id (fst (create_incident st incident_data))
      # created_ids (snd (create_incident st incident_data)) rs"
| "created_ids st (r # rs) = created_ids (snd (step st r)) rs"

subsection \<open>Notions of the specification\<close>


text \<open>
  What \<open>str.lower\<close> does to a text of ASCII characters: the letters A to Z move to a to z,
  all else stays. It stands for \<open>lower\<close> where a listing of ASCII texts is evaluated.
\<close>

definition ascii_lower_char :: "char \<Rightarrow> char" where
  "ascii_lower_char c =
    (let n = (of_char c :: nat) in if 65 \<le> n \<and> n \<le> 90 then char_of (n + 32) else c)"

definition ascii_lower :: "string \<Rightarrow> string" where
  "ascii_lower s = map ascii_lower_char s"



text \<open>
  A client that reads a whole listing: it asks for page 1, reads total_pages there, then
  asks for the pages 1 to total_pages in order and joins their incidents. A failing
  request fails the whole reading.
\<close>

fun collect_pages ::
  "(int \<Rightarrow> error + PaginatedResponse) \<Rightarrow> int list \<Rightarrow> error + Incident list" where
  "collect_pages fetch [] = Inr []"
| "collect_pages fetch (p # ps) =
    (case fetch p of
       Inl e \<Rightarrow> Inl e
     | Inr r \<Rightarrow>
        (case collect_pages fetch ps of
           Inl e \<Rightarrow> Inl e
         | Inr rest \<Rightarrow> Inr (resp_incidents r @ rest)))"

definition all_pages ::
  "(string \<Rightarrow> string) \<Rightarrow> store \<Rightarrow> string option \<Rightarrow> string option \<Rightarrow> int
    \<Rightarrow> error + Incident list" where
  "all_pages lower st status_filter severity_filter per_page =
    (case get_incidents lower st status_filter severity_filter 1 per_page of
       Inl e \<Rightarrow> Inl e
     | Inr r \<Rightarrow>
        collect_pages (\<lambda>p. get_incidents lower st status_filter severity_filter p per_page)
          [1..resp_total_pages r])"

text \<open>
  The invariant of the store: the ids of the collection increase strictly along the
  list, and none is above the counter.
\<close>

definition store_inv :: "store \<Rightarrow> bool" where
  "store_inv st =
    (sorted_wrt (<) (map inc_id (incidents st))
     \<and> list_all (\<lambda>v. v \<le> id_counter st) (map inc_id (incidents st)))"

section \<open>Identifier allocator\<close>

lemma allocate_values:
  "fst (allocate n st) = [id_counter st + 1 .. id_counter st + int n]"
proof (induction n arbitrary: st)
  case 0
  show ?case by simp
next
  case (Suc n)
  have "fst (allocate (Suc n) st) =
      (id_counter st + 1) # fst (allocate n (st\<lparr>id_counter := id_counter st + 1\<rparr>))"
    by (simp add: get_next_id_def Let_def split: prod.splits)
  also have "\<dots> = (id_counter st + 1) # [id_counter st + 1 + 1 .. id_counter st + 1 + int n]"
    by (simp only: Suc.IH) simp
  also have "\<dots> = [id_counter st + 1 .. id_counter st + 1 + int n]"
    by (rule upto_rec1 [symmetric]) simp
  also have "id_counter st + 1 + int n = id_counter st + int (Suc n)"
    by simp
  finally show ?case .
qed

lemma upto_strictly_increasing: "sorted_wrt (<) [i..j::int]"
  by (simp add: sorted_wrt_iff_nth_less)

text \<open>
  C3: from the seed, whose largest id is 3, the first call of get_next_id returns 4, and
  n calls return exactly 4, 5, ..., 3 + n: strictly increasing, nothing skipped, and every
  value above the largest id of the seed.
\<close>

theorem allocator_contiguous_from_seed:
  "Max (set (map inc_id (incidents seed_store))) = 3
   \<and> fst (get_next_id seed_store) = 4
   \<and> fst (allocate n seed_store) = [4 .. 3 + int n]
   \<and> sorted_wrt (<) (fst (allocate n seed_store))
   \<and> list_all (\<lambda>v. Max (set (map inc_id (incidents seed_store))) < v)
        (fst (allocate n seed_store))"
proof -
  have m: "Max (set (map inc_id (incidents seed_store))) = 3"
    by (simp add: seed_store_def seed_incidents_def)
  have f: "fst (get_next_id seed_store) = 4"
    by (simp add: get_next_id_def seed_store_def)
  have a: "fst (allocate n seed_store) = [4 .. 3 + int n]"
    by (simp add: allocate_values seed_store_def)
  have s: "sorted_wrt (<) (fst (allocate n seed_store))"
    unfolding a by (rule upto_strictly_increasing)
  have g: "list_all (\<lambda>v. Max (set (map inc_id (incidents seed_store))) < v)
      (fst (allocate n seed_store))"
    unfolding a m by (simp add: list_all_iff)
  from m f a s g show ?thesis by blast
qed

theorem allocator_contiguous_from_seed_witness:
  "fst (allocate 3 seed_store) = [4, 5, 6]"
proof -
  have "[4 .. 3 + int 3] = [4, 5, 6]" by code_simp
  with allocator_contiguous_from_seed [of 3] show ?thesis by simp
qed

section \<open>Listing: filters and pagination\<close>

subsection \<open>Case-insensitive comparison\<close>








subsection \<open>When the listing returns\<close>

lemma get_incidents_zero:
  "get_incidents lower st sf vf page 0 = Inl ZeroDivisionError"
  by (simp add: get_incidents_def Let_def)

lemma get_incidents_nonzero:
  "per_page \<noteq> 0 \<Longrightarrow>
   get_incidents lower st sf vf page per_page =
     Inr \<lparr>resp_incidents =
            py_slice (apply_filters lower (incidents st) sf vf)
              ((page - 1) * min per_page 100) ((page - 1) * min per_page 100 + min per_page 100),
          resp_total = int (length (apply_filters lower (incidents st) sf vf)),
          resp_page = page, resp_per_page = min per_page 100,
          resp_total_pages =
            (int (length (apply_filters lower (incidents st) sf vf)) + min per_page 100 - 1)
              div min per_page 100\<rparr>"
  by (simp add: get_incidents_def Let_def min_def)

lemma get_incidents_fails_iff:
  "(\<exists>e. get_incidents lower st sf vf page per_page = Inl e) = (per_page = 0)"
proof (cases "per_page = 0")
  case True
  then show ?thesis by (simp add: get_incidents_zero)
next
  case False
  then show ?thesis by (simp add: get_incidents_nonzero)
qed

text \<open>
  C1: the listing should return a page and its metadata for every per_page, zero and
  negative values included. It does not at per_page = 0: on the seed store the capped
  per_page is 0 and the floor division of the page count raises ZeroDivisionError, so
  the request ends in an error. Every other per_page returns.
\<close>

theorem list_fails_at_per_page_zero:
  "get_incidents lower seed_store None None 1 0 = Inl ZeroDivisionError"
  by (simp add: get_incidents_def Let_def)

subsection \<open>Windows of a list\<close>

lemma py_slice_window:
  assumes "0 \<le> a" "a \<le> b"
  shows "py_slice xs a b = take (nat (b - a)) (drop (nat a) xs)"
proof (cases "a \<le> int (length xs)")
  case True
  show ?thesis
  proof (cases "b \<le> int (length xs)")
    case True
    with assms \<open>a \<le> int (length xs)\<close> show ?thesis
      by (simp add: py_slice_def clip_index_def Let_def)
  next
    case False
    with assms \<open>a \<le> int (length xs)\<close> show ?thesis
      by (simp add: py_slice_def clip_index_def Let_def min_def)
  qed
next
  case False
  with assms show ?thesis
    by (simp add: py_slice_def clip_index_def Let_def min_def)
qed

lemma concat_windows:
  "concat (map (\<lambda>j. take k (drop (j * k) xs)) [0..<m]) = take (m * k) xs"
proof (induction m)
  case 0
  show ?case by simp
next
  case (Suc m)
  have "Suc m * k = m * k + k" by simp
  then have "take (Suc m * k) xs = take (m * k) xs @ take k (drop (m * k) xs)"
    by (simp only: take_add)
  then show ?case by (simp add: Suc.IH)
qed

lemma upto_from_one: "[1..int m] = map (\<lambda>j. int j + 1) [0..<m]"
proof (induction m)
  case 0
  show ?case by simp
next
  case (Suc m)
  have "[1..int (Suc m)] = [1..int m] @ [int m + 1]"
    by (simp add: upto_rec2 add.commute)
  then show ?case by (simp add: Suc.IH)
qed

lemma pages_quotient:
  fixes n k :: int
  assumes "0 < k"
  defines "q \<equiv> (n + k - 1) div k" and "r \<equiv> (n + k - 1) mod k"
  shows "n = k * q + r - k + 1" and "0 \<le> r" and "r < k"
proof -
  have "k * q + r = n + k - 1"
    unfolding q_def r_def by (rule mult_div_mod_eq)
  then show "n = k * q + r - k + 1" by simp
  show "0 \<le> r" unfolding r_def using assms(1) by simp
  show "r < k" unfolding r_def using assms(1) by simp
qed

lemma ceiling_pages:
  fixes n k :: int
  assumes "0 < k"
  shows "(n + k - 1) div k = \<lceil>real_of_int n / real_of_int k\<rceil>"
proof -
  define q where "q = (n + k - 1) div k"
  define r where "r = (n + k - 1) mod k"
  have n: "n = k * q + r - k + 1" and r0: "0 \<le> r" and rk: "r < k"
    unfolding q_def r_def using pages_quotient [OF assms, of n] by simp_all
  have "- n = k * (- q) + (k - 1 - r)"
    using n by (simp add: algebra_simps)
  moreover have "0 \<le> k - 1 - r" "k - 1 - r < k"
    using r0 rk by simp_all
  ultimately have "(- n) div k = - q"
    by (rule int_div_pos_eq)
  then have "\<lceil>real_of_int n / real_of_int k\<rceil> = q"
    by (simp add: ceiling_divide_eq_div)
  then show ?thesis by (simp add: q_def)
qed

lemma pages_cover:
  fixes n k :: int
  assumes "0 < k"
  shows "n \<le> ((n + k - 1) div k) * k"
proof -
  define q where "q = (n + k - 1) div k"
  define r where "r = (n + k - 1) mod k"
  have n: "n = k * q + r - k + 1" and rk: "r < k"
    unfolding q_def r_def using pages_quotient [OF assms, of n] by simp_all
  then have "n \<le> k * q" by simp
  then show ?thesis by (simp add: q_def mult.commute)
qed

lemma pages_nonneg:
  fixes n k :: int
  assumes "0 < k" "0 \<le> n"
  shows "0 \<le> (n + k - 1) div k"
  using assms by (simp add: pos_imp_zdiv_nonneg_iff)

lemma collect_pages_all:
  assumes "\<And>p. p \<in> set ps \<Longrightarrow> \<exists>r. fetch p = Inr r \<and> resp_incidents r = g p"
  shows "collect_pages fetch ps = Inr (concat (map g ps))"
  using assms
proof (induction ps)
  case Nil
  show ?case by simp
next
  case (Cons p ps)
  from Cons.prems [of p] obtain r where r: "fetch p = Inr r" "resp_incidents r = g p"
    by auto
  have "collect_pages fetch ps = Inr (concat (map g ps))"
    by (rule Cons.IH) (simp add: Cons.prems)
  with r show ?case by simp
qed

lemma all_pages_reconstruct:
  assumes "1 \<le> per_page"
  shows "all_pages lower st sf vf per_page = Inr (apply_filters lower (incidents st) sf vf)"
proof -
  define xs where "xs = apply_filters lower (incidents st) sf vf"
  define k where "k = min per_page 100"
  define tp where "tp = (int (length xs) + k - 1) div k"
  have k: "0 < k" using assms by (simp add: k_def)
  have nz: "per_page \<noteq> 0" using assms by simp
  have tp0: "0 \<le> tp" unfolding tp_def using k by (rule pages_nonneg) simp
  have cover: "int (length xs) \<le> tp * k" unfolding tp_def using k by (rule pages_cover)
  have fetch: "\<exists>r. get_incidents lower st sf vf p per_page = Inr r
      \<and> resp_incidents r = take (nat k) (drop (nat ((p - 1) * k)) xs)" if "p \<in> set [1..tp]" for p
  proof -
    from that have p: "1 \<le> p" by simp
    have "py_slice xs ((p - 1) * k) ((p - 1) * k + k) = take (nat k) (drop (nat ((p - 1) * k)) xs)"
      using py_slice_window [of "(p - 1) * k" "(p - 1) * k + k" xs] p k by simp
    then show ?thesis
      by (simp add: get_incidents_nonzero [OF nz] xs_def k_def)
  qed
  have "all_pages lower st sf vf per_page =
      collect_pages (\<lambda>p. get_incidents lower st sf vf p per_page) [1..tp]"
    by (simp add: all_pages_def get_incidents_nonzero [OF nz] xs_def k_def tp_def)
  also have "\<dots> = Inr (concat (map (\<lambda>p. take (nat k) (drop (nat ((p - 1) * k)) xs)) [1..tp]))"
    by (rule collect_pages_all) (rule fetch)
  also have "[1..tp] = map (\<lambda>j. int j + 1) [0..<nat tp]"
    using upto_from_one [of "nat tp"] tp0 by simp
  also have "concat (map (\<lambda>p. take (nat k) (drop (nat ((p - 1) * k)) xs))
        (map (\<lambda>j. int j + 1) [0..<nat tp]))
      = concat (map (\<lambda>j. take (nat k) (drop (j * nat k) xs)) [0..<nat tp])"
    using k by (simp add: comp_def nat_mult_distrib)
  also have "\<dots> = take (nat tp * nat k) xs"
    by (rule concat_windows)
  also have "\<dots> = xs"
  proof -
    have "int (length xs) \<le> int (nat tp * nat k)"
      using cover tp0 k by simp
    then have "length xs \<le> nat tp * nat k" by linarith
    then show ?thesis by simp
  qed
  finally show ?thesis by (simp add: xs_def)
qed

subsection \<open>Filter correctness\<close>






subsection \<open>Pagination metadata\<close>

text \<open>
  C5, as the code has it: whenever per_page is not 0 the listing returns, the per_page of
  the metadata is the requested per_page capped at 100, total is the number of incidents
  that pass the filters, and total_pages is (total + per_page - 1) // per_page for the
  capped per_page. For per_page of at least 1, total_pages is the ceiling of total
  divided by the effective per_page, it is 0 when total is 0, and the pages 1 to
  total_pages joined in order are the filtered sequence.
\<close>

theorem pagination_metadata:
  assumes "per_page \<noteq> 0"
  shows "\<exists>r. get_incidents lower st sf vf page per_page = Inr r
      \<and> resp_page r = page
      \<and> resp_per_page r = min per_page 100
      \<and> resp_total r = int (length (apply_filters lower (incidents st) sf vf))
      \<and> resp_total_pages r = (resp_total r + resp_per_page r - 1) div resp_per_page r
      \<and> (1 \<le> per_page \<longrightarrow>
           resp_total_pages r = \<lceil>real_of_int (resp_total r) / real_of_int (resp_per_page r)\<rceil>
           \<and> (resp_total r = 0 \<longrightarrow> resp_total_pages r = 0)
           \<and> all_pages lower st sf vf per_page = Inr (apply_filters lower (incidents st) sf vf))"
proof -
  define xs where "xs = apply_filters lower (incidents st) sf vf"
  define k where "k = min per_page 100"
  define r where "r = \<lparr>resp_incidents = py_slice xs ((page - 1) * k) ((page - 1) * k + k),
      resp_total = int (length xs), resp_page = page, resp_per_page = k,
      resp_total_pages = (int (length xs) + k - 1) div k\<rparr>"
  have ret: "get_incidents lower st sf vf page per_page = Inr r"
    using assms by (simp add: get_incidents_nonzero r_def xs_def k_def)
  have pages: "resp_total_pages r = \<lceil>real_of_int (resp_total r) / real_of_int (resp_per_page r)\<rceil>"
    and empty: "resp_total r = 0 \<longrightarrow> resp_total_pages r = 0"
    and walk: "all_pages lower st sf vf per_page = Inr (apply_filters lower (incidents st) sf vf)"
    if pos: "1 \<le> per_page"
  proof -
    from pos have k: "0 < k" by (simp add: k_def)
    show "resp_total_pages r = \<lceil>real_of_int (resp_total r) / real_of_int (resp_per_page r)\<rceil>"
      using ceiling_pages [OF k, of "int (length xs)"] by (simp add: r_def)
    show "resp_total r = 0 \<longrightarrow> resp_total_pages r = 0"
      using k by (simp add: r_def)
    show "all_pages lower st sf vf per_page = Inr (apply_filters lower (incidents st) sf vf)"
      using pos by (rule all_pages_reconstruct)
  qed
  have "resp_per_page r = min per_page 100" by (simp add: r_def k_def)
  moreover have "resp_total r = int (length (apply_filters lower (incidents st) sf vf))"
    by (simp add: r_def xs_def)
  moreover have "resp_page r = page" by (simp add: r_def)
  moreover have "resp_total_pages r = (resp_total r + resp_per_page r - 1) div resp_per_page r"
    by (simp add: r_def)
  ultimately show ?thesis using ret pages empty walk by blast
qed

theorem pagination_metadata_witness:
  "(1000::int) \<noteq> 0 \<and> (1::int) \<le> 1000
   \<and> get_incidents ascii_lower seed_store None None 1 1000
       = Inr \<lparr>resp_incidents = seed_incidents, resp_total = 3, resp_page = 1,
              resp_per_page = 100, resp_total_pages = 1\<rparr>
   \<and> all_pages ascii_lower seed_store None None 1000 = Inr seed_incidents
   \<and> (2::int) \<noteq> 0 \<and> (1::int) \<le> 2
   \<and> get_incidents ascii_lower seed_store (Some ''resolved'') None 1 2
       = Inr \<lparr>resp_incidents = [], resp_total = 0, resp_page = 1,
              resp_per_page = 2, resp_total_pages = 0\<rparr>
   \<and> all_pages ascii_lower seed_store (Some ''resolved'') None 2 = Inr []"
proof -
  have g: "get_incidents ascii_lower seed_store None None 1 1000
       = Inr \<lparr>resp_incidents = seed_incidents, resp_total = 3, resp_page = 1,
              resp_per_page = 100, resp_total_pages = 1\<rparr>"
    by (simp add: get_incidents_def apply_filters_def seed_store_def seed_incidents_def
        py_slice_def clip_index_def Let_def)
  have a: "apply_filters ascii_lower (incidents seed_store) None None = seed_incidents"
    by (simp add: apply_filters_def seed_store_def)
  have b: "apply_filters ascii_lower (incidents seed_store) (Some ''resolved'') None = []"
    by (simp add: apply_filters_def seed_store_def seed_incidents_def ascii_lower_def ascii_lower_char_def)
  from pagination_metadata
    [where per_page = 1000 and lower = ascii_lower and st = seed_store and sf = None
      and vf = None and page = 1] a
  have w1: "all_pages ascii_lower seed_store None None 1000 = Inr seed_incidents"
    by auto
  from pagination_metadata
    [where per_page = 2 and lower = ascii_lower and st = seed_store
      and sf = "Some ''resolved''" and vf = None and page = 1] b
  obtain r where r: "get_incidents ascii_lower seed_store (Some ''resolved'') None 1 2 = Inr r"
    "resp_page r = 1" "resp_per_page r = 2" "resp_total r = 0" "resp_total_pages r = 0"
    "all_pages ascii_lower seed_store (Some ''resolved'') None 2 = Inr []"
    by auto
  have "resp_incidents r = []"
    using r(1) b by (auto simp: get_incidents_nonzero py_slice_def)
  with r have "r = \<lparr>resp_incidents = [], resp_total = 0, resp_page = 1,
              resp_per_page = 2, resp_total_pages = 0\<rparr>"
    by simp
  with g w1 r(1,6) show ?thesis by simp
qed

text \<open>
  The ceiling formula does not hold for every per_page: with per_page = -1 and a filter
  that keeps nothing, total is 0 and total_pages is 2.
\<close>

theorem total_pages_negative_per_page:
  "get_incidents ascii_lower seed_store (Some ''resolved'') None 1 (- 1)
     = Inr \<lparr>resp_incidents = [], resp_total = 0, resp_page = 1,
            resp_per_page = - 1, resp_total_pages = 2\<rparr>
   \<and> (2::int) \<noteq> \<lceil>real_of_int 0 / real_of_int (- 1)\<rceil>"
  by (simp add: get_incidents_def apply_filters_def seed_store_def seed_incidents_def
        py_slice_def clip_index_def Let_def ascii_lower_def ascii_lower_char_def)

subsection \<open>Empty filters\<close>

text \<open>
  C10: an empty text as status filter gives the same listing as no status filter, and
  the filtering step keeps the whole collection rather than the incidents with an empty
  status; the same holds for an empty severity filter.
\<close>

theorem empty_filter_is_no_filter:
  "get_incidents lower st (Some '''') vf page per_page = get_incidents lower st None vf page per_page
   \<and> get_incidents lower st sf (Some '''') page per_page = get_incidents lower st sf None page per_page
   \<and> apply_filters lower (incidents st) (Some '''') None = incidents st
   \<and> apply_filters lower (incidents st) None (Some '''') = incidents st"
  by (simp add: get_incidents_def apply_filters_def)

section \<open>Lookup, creation, update and deletion\<close>

subsection \<open>The three scans\<close>

lemma find_incident_None_iff:
  "(find_incident xs x = None) = (x \<notin> set (map inc_id xs))"
  by (induction xs) auto

lemma find_incident_Some:
  "find_incident xs x = Some i \<Longrightarrow> i \<in> set xs \<and> inc_id i = x"
  by (induction xs) (auto split: if_splits)

lemma find_incident_append_new:
  "x \<notin> set (map inc_id xs) \<Longrightarrow> inc_id i = x \<Longrightarrow> find_incident (xs @ [i]) x = Some i"
  by (induction xs) auto

lemma update_scan_None_iff:
  "(update_scan xs x s = None) = (x \<notin> set (map inc_id xs))"
  by (induction xs) (auto split: option.splits)

lemma update_scan_Some:
  "update_scan xs x s = Some (u, xs') \<Longrightarrow>
   \<exists>k. k < length xs \<and> inc_id (xs ! k) = x \<and> (\<forall>j<k. inc_id (xs ! j) \<noteq> x)
     \<and> u = (xs ! k)\<lparr>status := s\<rparr> \<and> xs' = xs[k := u]"
proof (induction xs arbitrary: u xs')
  case Nil
  then show ?case by simp
next
  case (Cons i rest)
  show ?case
  proof (cases "inc_id i = x")
    case True
    with Cons.prems have "u = i\<lparr>status := s\<rparr>" "xs' = u # rest" by auto
    with True show ?thesis by (intro exI [of _ 0]) simp
  next
    case False
    with Cons.prems obtain rest' where r: "update_scan rest x s = Some (u, rest')" "xs' = i # rest'"
      by (auto split: option.splits)
    from Cons.IH [OF r(1)] obtain k where k: "k < length rest" "inc_id (rest ! k) = x"
      "\<forall>j<k. inc_id (rest ! j) \<noteq> x" "u = (rest ! k)\<lparr>status := s\<rparr>" "rest' = rest[k := u]"
      by blast
    have "\<forall>j<Suc k. inc_id ((i # rest) ! j) \<noteq> x"
      using False k(3) by (auto simp: less_Suc_eq_0_disj)
    with k r(2) show ?thesis by (intro exI [of _ "Suc k"]) simp
  qed
qed

lemma delete_scan_None_iff:
  "(delete_scan xs x = None) = (x \<notin> set (map inc_id xs))"
  by (induction xs) (auto split: option.splits)

lemma delete_scan_Some:
  "delete_scan xs x = Some (d, xs') \<Longrightarrow>
   \<exists>ys zs. xs = ys @ d # zs \<and> xs' = ys @ zs \<and> inc_id d = x \<and> x \<notin> set (map inc_id ys)"
proof (induction xs arbitrary: d xs')
  case Nil
  then show ?case by simp
next
  case (Cons i rest)
  show ?case
  proof (cases "inc_id i = x")
    case True
    with Cons.prems have "d = i" "xs' = rest" by simp_all
    with True show ?thesis by (intro exI [of _ "[]"] exI [of _ rest]) simp
  next
    case False
    with Cons.prems obtain rest' where r: "delete_scan rest x = Some (d, rest')" "xs' = i # rest'"
      by (auto split: option.splits)
    from Cons.IH [OF r(1)] obtain ys zs where "rest = ys @ d # zs" "rest' = ys @ zs"
      "inc_id d = x" "x \<notin> set (map inc_id ys)" by blast
    with False r(2) show ?thesis by (intro exI [of _ "i # ys"] exI [of _ zs]) simp
  qed
qed

lemma find_delete_same:
  "delete_scan xs x = Some (d, xs') \<Longrightarrow> find_incident xs x = Some d"
  by (induction xs arbitrary: d xs') (auto split: if_splits option.splits)

lemma update_scan_ids:
  "update_scan xs x s = Some (u, xs') \<Longrightarrow> map inc_id xs' = map inc_id xs"
  by (induction xs arbitrary: u xs') (auto split: if_splits option.splits)

subsection \<open>The invariant along a sequence of requests\<close>

lemma create_incident_eq:
  "create_incident st d =
    (\<lparr>inc_id = id_counter st + 1, title = create_title d, status = create_status d,
       severity = create_severity d\<rparr>,
     \<lparr>incidents = incidents st @ [\<lparr>inc_id = id_counter st + 1, title = create_title d,
         status = create_status d, severity = create_severity d\<rparr>],
       id_counter = id_counter st + 1\<rparr>)"
  by (simp add: create_incident_def get_next_id_def Let_def)

lemma store_inv_seed: "store_inv seed_store"
  by (simp add: store_inv_def seed_store_def seed_incidents_def)

lemma store_inv_ids_below:
  "store_inv st \<Longrightarrow> v \<in> set (map inc_id (incidents st)) \<Longrightarrow> v \<le> id_counter st"
  unfolding store_inv_def list_all_iff by blast

lemma store_inv_distinct: "store_inv st \<Longrightarrow> distinct (map inc_id (incidents st))"
  by (simp add: store_inv_def strict_sorted_iff)

lemma store_inv_create: "store_inv st \<Longrightarrow> store_inv (snd (create_incident st d))"
  by (auto simp: create_incident_eq store_inv_def sorted_wrt_append list_all_iff)

lemma store_inv_update: "store_inv st \<Longrightarrow> store_inv (snd (update_incident st x u))"
  by (auto simp: update_incident_def store_inv_def update_scan_ids split: option.splits)

lemma store_inv_delete: "store_inv st \<Longrightarrow> store_inv (snd (delete_incident st x))"
proof (cases "delete_scan (incidents st) x")
  case None
  assume "store_inv st"
  with None show ?thesis by (simp add: delete_incident_def)
next
  case (Some p)
  assume inv: "store_inv st"
  obtain d xs' where p: "p = (d, xs')" by (cases p)
  from delete_scan_Some [of "incidents st" x d xs'] Some p
  obtain ys zs where "incidents st = ys @ d # zs" "xs' = ys @ zs" by auto
  with inv Some p show ?thesis
    by (auto simp: delete_incident_def store_inv_def sorted_wrt_append list_all_iff)
qed

lemma step_create_state: "snd (step st (Create d)) = snd (create_incident st d)"
  by (simp split: prod.splits)

lemma store_inv_step: "store_inv st \<Longrightarrow> store_inv (snd (step st r))"
proof (cases r)
  case (Create d)
  assume "store_inv st"
  then show ?thesis unfolding Create step_create_state by (rule store_inv_create)
next
  case (Update x u)
  assume "store_inv st"
  then show ?thesis unfolding Update by (simp add: store_inv_update)
next
  case (Delete x)
  assume "store_inv st"
  then show ?thesis unfolding Delete by (simp add: store_inv_delete)
qed

lemma store_inv_run: "store_inv st \<Longrightarrow> store_inv (run st reqs)"
  by (induction reqs arbitrary: st) (simp_all add: store_inv_step)

lemma counter_step: "id_counter st \<le> id_counter (snd (step st r))"
  by (cases r)
    (auto simp: create_incident_eq update_incident_def delete_incident_def split: option.splits)

lemma counter_run: "id_counter st \<le> id_counter (run st reqs)"
proof (induction reqs arbitrary: st)
  case Nil
  show ?case by simp
next
  case (Cons r rs)
  have "id_counter st \<le> id_counter (snd (step st r))" by (rule counter_step)
  also have "\<dots> \<le> id_counter (run (snd (step st r)) rs)" by (rule Cons.IH)
  finally show ?case by simp
qed

lemma created_ids_bounds:
  "v \<in> set (created_ids st reqs) \<Longrightarrow> id_counter st < v \<and> v \<le> id_counter (run st reqs)"
proof (induction reqs arbitrary: st)
  case Nil
  then show ?case by simp
next
  case (Cons r rs)
  define st1 where "st1 = snd (step st r)"
  have c1: "id_counter st \<le> id_counter st1" unfolding st1_def by (rule counter_step)
  have run: "run st (r # rs) = run st1 rs" by (simp add: st1_def)
  show ?case
  proof (cases "v \<in> set (created_ids st1 rs)")
    case True
    from Cons.IH [OF True] c1 show ?thesis unfolding run by simp
  next
    case False
    with Cons.prems obtain d where r: "r = Create d" and v: "v = id_counter st + 1"
      by (cases r) (auto simp: st1_def create_incident_eq split: prod.splits)
    have "id_counter st1 = id_counter st + 1"
      by (simp add: st1_def r create_incident_eq)
    with counter_run [of st1 rs] v show ?thesis unfolding run by simp
  qed
qed

lemma created_ids_increasing: "sorted_wrt (<) (created_ids st reqs)"
proof (induction reqs arbitrary: st)
  case Nil
  show ?case by simp
next
  case (Cons r rs)
  show ?case
  proof (cases r)
    case (Create d)
    have "id_counter st + 1 < v" if "v \<in> set (created_ids (snd (create_incident st d)) rs)" for v
      using created_ids_bounds [OF that] by (simp add: create_incident_eq)
    then show ?thesis
      using Cons.IH [of "snd (create_incident st d)"] by (simp add: Create create_incident_eq)
  next
    case (Update x u)
    then show ?thesis by (simp add: Cons.IH)
  next
    case (Delete x)
    then show ?thesis by (simp add: Cons.IH)
  qed
qed

lemma delete_ids_subseq:
  "subseq (map inc_id (incidents (snd (delete_incident st x)))) (map inc_id (incidents st))"
proof (cases "delete_scan (incidents st) x")
  case None
  then show ?thesis by (simp add: delete_incident_def)
next
  case (Some p)
  obtain d xs' where p: "p = (d, xs')" by (cases p)
  from delete_scan_Some [of "incidents st" x d xs'] Some p
  obtain ys zs where "incidents st = ys @ d # zs" "xs' = ys @ zs" by auto
  moreover have "subseq (map inc_id zs) (inc_id d # map inc_id zs)"
    by (rule list_emb_Cons) simp
  ultimately show ?thesis using Some p
    by (simp add: delete_incident_def subseq_append')
qed

lemma survivors_in_issue_order:
  "subseq (map inc_id (incidents (run st reqs))) (map inc_id (incidents st) @ created_ids st reqs)"
proof (induction reqs arbitrary: st)
  case Nil
  show ?case by simp
next
  case (Cons r rs)
  show ?case
  proof (cases r)
    case (Create d)
    from Cons.IH [of "snd (create_incident st d)"] show ?thesis
      by (simp add: Create step_create_state create_incident_eq)
  next
    case (Update x u)
    have "map inc_id (incidents (snd (update_incident st x u))) = map inc_id (incidents st)"
      by (auto simp: update_incident_def update_scan_ids split: option.splits)
    with Cons.IH [of "snd (update_incident st x u)"] show ?thesis
      by (simp add: Update)
  next
    case (Delete x)
    have "subseq (map inc_id (incidents (snd (delete_incident st x))) @ created_ids (snd (delete_incident st x)) rs)
        (map inc_id (incidents st) @ created_ids (snd (delete_incident st x)) rs)"
      by (simp add: subseq_append delete_ids_subseq)
    with Cons.IH [of "snd (delete_incident st x)"] show ?thesis
      by (auto simp: Delete intro: subseq_order.trans)
  qed
qed

lemma issued_increasing:
  assumes "store_inv st"
  shows "sorted_wrt (<) (map inc_id (incidents st) @ created_ids st reqs)"
proof -
  have "a < b" if "a \<in> set (map inc_id (incidents st))" "b \<in> set (created_ids st reqs)" for a b
    using store_inv_ids_below [OF assms that(1)] created_ids_bounds [OF that(2)] by simp
  then show ?thesis
    using assms by (simp add: sorted_wrt_append created_ids_increasing store_inv_def)
qed

subsection \<open>Required fields\<close>

lemma validate_create_fails_iff:
  "(\<exists>e. validate_create coerce tf sf vf = Inl e)
     = (field_text coerce tf = None \<or> field_text coerce vf = None
        \<or> (sf \<noteq> None \<and> field_text coerce sf = None))"
  by (auto simp: validate_create_def field_text_def split: option.splits)

lemma validate_create_error:
  "validate_create coerce tf sf vf = Inl e \<Longrightarrow> e = ValidationFailure"
  by (auto simp: validate_create_def split: option.splits)

lemma validate_update_fails_iff:
  "(\<exists>e. validate_update coerce uf = Inl e) = (field_text coerce uf = None)"
  by (auto simp: validate_update_def field_text_def split: option.splits)

lemma validate_update_error:
  "validate_update coerce uf = Inl e \<Longrightarrow> e = ValidationFailure"
  by (auto simp: validate_update_def split: option.splits)

lemma post_incidents_fails_iff:
  "(fst (post_incidents coerce st tf sf vf) = Inl ValidationFailure)
     = (field_text coerce tf = None \<or> field_text coerce vf = None
        \<or> (sf \<noteq> None \<and> field_text coerce sf = None))"
proof (cases "validate_create coerce tf sf vf")
  case (Inl e)
  then have "e = ValidationFailure" by (rule validate_create_error)
  with Inl show ?thesis
    using validate_create_fails_iff [of coerce tf sf vf] by (simp add: post_incidents_def)
next
  case (Inr d)
  then show ?thesis
    using validate_create_fails_iff [of coerce tf sf vf]
    by (simp add: post_incidents_def split: prod.splits)
qed

lemma post_incidents_failure_unchanged:
  "fst (post_incidents coerce st tf sf vf) = Inl ValidationFailure \<Longrightarrow>
   post_incidents coerce st tf sf vf = (Inl ValidationFailure, st)"
  by (cases "validate_create coerce tf sf vf")
    (auto simp: post_incidents_def split: prod.splits)

lemma patch_incident_fails_iff:
  "(fst (patch_incident coerce st x uf) = Inl ValidationFailure) = (field_text coerce uf = None)"
proof (cases "validate_update coerce uf")
  case (Inl e)
  then have "e = ValidationFailure" by (rule validate_update_error)
  with Inl show ?thesis
    using validate_update_fails_iff [of coerce uf] by (simp add: patch_incident_def)
next
  case (Inr d)
  have "fst (update_incident st x d) \<noteq> Inl ValidationFailure"
    by (simp add: update_incident_def split: option.splits)
  with Inr show ?thesis
    using validate_update_fails_iff [of coerce uf] by (simp add: patch_incident_def)
qed

lemma patch_incident_failure_unchanged:
  "field_text coerce uf = None \<Longrightarrow>
   patch_incident coerce st x uf = (Inl ValidationFailure, st)"
  by (auto simp: patch_incident_def validate_update_def field_text_def split: option.splits)

text \<open>
  C2, as the code has it: a create request fails with ValidationFailure, the store
  unchanged, exactly when title or severity provides no text (it is missing, or its value
  is not accepted as text) or status is given with a value that is not accepted as text;
  an update request fails with ValidationFailure, the store unchanged, exactly when the
  new status provides no text. A missing field provides no text, null provides none, and
  every JSON text provides itself, the empty text included; what other values provide is
  left to the validation library. So a request whose title, severity or new status is
  missing fails, and a request whose fields are texts passes validation whatever the
  texts are; a missing status of a create request becomes "open".
\<close>

theorem required_fields_validation:
  "(fst (post_incidents coerce st tf sf vf) = Inl ValidationFailure)
      = (field_text coerce tf = None \<or> field_text coerce vf = None
         \<or> (sf \<noteq> None \<and> field_text coerce sf = None))
   \<and> (fst (post_incidents coerce st tf sf vf) = Inl ValidationFailure \<longrightarrow>
        post_incidents coerce st tf sf vf = (Inl ValidationFailure, st))
   \<and> (fst (patch_incident coerce st x uf) = Inl ValidationFailure)
      = (field_text coerce uf = None)
   \<and> (field_text coerce uf = None \<longrightarrow>
        patch_incident coerce st x uf = (Inl ValidationFailure, st))
   \<and> field_text coerce None = None
   \<and> field_text coerce (Some JNull) = None
   \<and> field_text coerce (Some (JString t')) = Some t'
   \<and> validate_create coerce (Some (JString t')) None (Some (JString v'))
       = Inr (IncidentCreate t' ''open'' v')
   \<and> validate_create coerce (Some (JString t')) (Some (JString s')) (Some (JString v'))
       = Inr (IncidentCreate t' s' v')
   \<and> validate_update coerce (Some (JString u')) = Inr (IncidentUpdate u')"
proof -
  have "field_text coerce None = None" "field_text coerce (Some JNull) = None"
    "field_text coerce (Some (JString t')) = Some t'"
    by (simp_all add: field_text_def str_field_def)
  moreover have "validate_create coerce (Some (JString t')) None (Some (JString v'))
       = Inr (IncidentCreate t' ''open'' v')"
    "validate_create coerce (Some (JString t')) (Some (JString s')) (Some (JString v'))
       = Inr (IncidentCreate t' s' v')"
    "validate_update coerce (Some (JString u')) = Inr (IncidentUpdate u')"
    by (simp_all add: validate_create_def validate_update_def str_field_def)
  ultimately show ?thesis
    using post_incidents_fails_iff [of coerce st tf sf vf]
      post_incidents_failure_unchanged [of coerce st tf sf vf]
      patch_incident_fails_iff [of coerce st x uf]
      patch_incident_failure_unchanged [of coerce uf st x]
    by blast
qed

theorem required_fields_validation_witness:
  "post_incidents no_coercion seed_store None None (Some (JString ''high''))
     = (Inl ValidationFailure, seed_store)
   \<and> post_incidents no_coercion seed_store (Some (JString ''T'')) (Some JNull)
       (Some (JString ''high'')) = (Inl ValidationFailure, seed_store)
   \<and> post_incidents no_coercion seed_store (Some (JNumber 123)) None
       (Some (JString ''high'')) = (Inl ValidationFailure, seed_store)
   \<and> patch_incident no_coercion seed_store 1 None = (Inl ValidationFailure, seed_store)
   \<and> patch_incident no_coercion seed_store 1 (Some JNull)
     = (Inl ValidationFailure, seed_store)"
proof -
  have f: "field_text no_coercion None = None" "field_text no_coercion (Some JNull) = None"
    "field_text no_coercion (Some (JNumber 123)) = None"
    by (simp_all add: field_text_def str_field_def no_coercion_def)
  from required_fields_validation
    [of no_coercion seed_store None None "Some (JString ''high'')" 1 None] f
  have a: "post_incidents no_coercion seed_store None None (Some (JString ''high''))
     = (Inl ValidationFailure, seed_store)"
    "patch_incident no_coercion seed_store 1 None = (Inl ValidationFailure, seed_store)"
    by blast+
  from required_fields_validation
    [of no_coercion seed_store "Some (JString ''T'')" "Some JNull" "Some (JString ''high'')"
      1 "Some JNull"] f
  have b: "post_incidents no_coercion seed_store (Some (JString ''T'')) (Some JNull)
       (Some (JString ''high'')) = (Inl ValidationFailure, seed_store)"
    "patch_incident no_coercion seed_store 1 (Some JNull)
     = (Inl ValidationFailure, seed_store)"
    by blast+
  from required_fields_validation
    [of no_coercion seed_store "Some (JNumber 123)" None "Some (JString ''high'')" 1 None] f
  have c: "post_incidents no_coercion seed_store (Some (JNumber 123)) None
       (Some (JString ''high'')) = (Inl ValidationFailure, seed_store)"
    by blast
  from a b c show ?thesis by blast
qed

text \<open>
  Empty text is not rejected: a create request with the empty title on the seed store
  is accepted and stored as incident 4.
\<close>

theorem create_accepts_empty_title:
  "post_incidents no_coercion seed_store (Some (JString '''')) None (Some (JString ''high''))
     = (Inr \<lparr>inc_id = 4, title = '''', status = ''open'', severity = ''high''\<rparr>,
        \<lparr>incidents = seed_incidents
           @ [\<lparr>inc_id = 4, title = '''', status = ''open'', severity = ''high''\<rparr>],
         id_counter = 4\<rparr>)"
  by (simp add: post_incidents_def validate_create_def str_field_def create_incident_eq
      seed_store_def)

subsection \<open>Create, then get\<close>

text \<open>
  C6: in every state that a sequence of requests reaches from the seed, a create request
  with title t, severity v and no status takes the next id of the allocator, which no
  incident of the collection has, appends the new incident to the end of the collection
  and returns it; a get of that id right after returns the incident, with status "open",
  title t and severity v.
\<close>

theorem create_get_round_trip:
  assumes "st = run seed_store reqs"
  shows "\<exists>new st'.
        post_incidents coerce st (Some (JString t)) None (Some (JString v)) = (Inr new, st')
      \<and> new = \<lparr>inc_id = fst (get_next_id st), title = t, status = ''open'', severity = v\<rparr>
      \<and> inc_id new = id_counter st + 1
      \<and> inc_id new \<notin> set (map inc_id (incidents st))
      \<and> incidents st' = incidents st @ [new]
      \<and> id_counter st' = id_counter st + 1
      \<and> get_incident st' (inc_id new) = Inr new"
proof -
  define new where
    "new = \<lparr>inc_id = id_counter st + 1, title = t, status = ''open'', severity = v\<rparr>"
  define st' where
    "st' = \<lparr>incidents = incidents st @ [new], id_counter = id_counter st + 1\<rparr>"
  have inv: "store_inv st"
    unfolding assms by (rule store_inv_run) (rule store_inv_seed)
  have fresh: "inc_id new \<notin> set (map inc_id (incidents st))"
  proof
    assume "inc_id new \<in> set (map inc_id (incidents st))"
    from store_inv_ids_below [OF inv this] show False by (simp add: new_def)
  qed
  have post: "post_incidents coerce st (Some (JString t)) None (Some (JString v))
      = (Inr new, st')"
    by (simp add: post_incidents_def validate_create_def str_field_def create_incident_eq
        new_def st'_def)
  have "find_incident (incidents st @ [new]) (inc_id new) = Some new"
    using fresh by (rule find_incident_append_new) simp
  then have get: "get_incident st' (inc_id new) = Inr new"
    by (simp add: get_incident_def st'_def)
  have "new = \<lparr>inc_id = fst (get_next_id st), title = t, status = ''open'', severity = v\<rparr>"
    by (simp add: new_def get_next_id_def)
  moreover have "inc_id new = id_counter st + 1" by (simp add: new_def)
  moreover have "incidents st' = incidents st @ [new]" by (simp add: st'_def)
  moreover have "id_counter st' = id_counter st + 1" by (simp add: st'_def)
  ultimately show ?thesis using post fresh get by blast
qed

lemma run_delete_3:
  "run seed_store [Delete 3] =
     \<lparr>incidents = [seed_incidents ! 0, seed_incidents ! 1], id_counter = 3\<rparr>"
  by (simp add: seed_store_def seed_incidents_def delete_incident_def)

theorem create_get_round_trip_witness:
  "run seed_store [Delete 3] =
     \<lparr>incidents = [seed_incidents ! 0, seed_incidents ! 1], id_counter = 3\<rparr>
   \<and> post_incidents no_coercion (run seed_store [Delete 3]) (Some (JString ''T'')) None
       (Some (JString ''high''))
     = (Inr \<lparr>inc_id = 4, title = ''T'', status = ''open'', severity = ''high''\<rparr>,
        \<lparr>incidents = [seed_incidents ! 0, seed_incidents ! 1,
           \<lparr>inc_id = 4, title = ''T'', status = ''open'', severity = ''high''\<rparr>],
         id_counter = 4\<rparr>)
   \<and> get_incident
        \<lparr>incidents = [seed_incidents ! 0, seed_incidents ! 1,
           \<lparr>inc_id = 4, title = ''T'', status = ''open'', severity = ''high''\<rparr>],
         id_counter = 4\<rparr> 4
     = Inr \<lparr>inc_id = 4, title = ''T'', status = ''open'', severity = ''high''\<rparr>"
proof -
  have post: "post_incidents no_coercion (run seed_store [Delete 3]) (Some (JString ''T'')) None
       (Some (JString ''high''))
     = (Inr \<lparr>inc_id = 4, title = ''T'', status = ''open'', severity = ''high''\<rparr>,
        \<lparr>incidents = [seed_incidents ! 0, seed_incidents ! 1,
           \<lparr>inc_id = 4, title = ''T'', status = ''open'', severity = ''high''\<rparr>],
         id_counter = 4\<rparr>)"
    unfolding run_delete_3
    by (simp add: post_incidents_def validate_create_def str_field_def create_incident_eq)
  from create_get_round_trip
    [where reqs = "[Delete 3]" and coerce = no_coercion and t = "''T''" and v = "''high''",
      OF refl]
  obtain new st' where
    "post_incidents no_coercion (run seed_store [Delete 3]) (Some (JString ''T'')) None
       (Some (JString ''high'')) = (Inr new, st')"
    "get_incident st' (inc_id new) = Inr new"
    by blast
  with post have "get_incident
        \<lparr>incidents = [seed_incidents ! 0, seed_incidents ! 1,
           \<lparr>inc_id = 4, title = ''T'', status = ''open'', severity = ''high''\<rparr>],
         id_counter = 4\<rparr> 4
     = Inr \<lparr>inc_id = 4, title = ''T'', status = ''open'', severity = ''high''\<rparr>"
    by auto
  with post run_delete_3 show ?thesis by simp
qed

subsection \<open>NotFound\<close>

lemma get_incident_not_found_iff:
  "(get_incident st x = Inl NotFound) = (x \<notin> set (map inc_id (incidents st)))"
  using find_incident_None_iff [of "incidents st" x]
  by (cases "find_incident (incidents st) x") (simp_all add: get_incident_def del: set_map)

lemma update_incident_not_found_iff:
  "(fst (update_incident st x u) = Inl NotFound) = (x \<notin> set (map inc_id (incidents st)))"
  using update_scan_None_iff [of "incidents st" x "update_status u"]
  by (cases "update_scan (incidents st) x (update_status u)")
    (simp_all add: update_incident_def del: set_map split: prod.splits)

lemma delete_incident_not_found_iff:
  "(fst (delete_incident st x) = Inl NotFound) = (x \<notin> set (map inc_id (incidents st)))"
  using delete_scan_None_iff [of "incidents st" x]
  by (cases "delete_scan (incidents st) x")
    (simp_all add: delete_incident_def del: set_map split: prod.splits)

lemma not_found_unchanged:
  assumes "x \<notin> set (map inc_id (incidents st))"
  shows "update_incident st x u = (Inl NotFound, st)" and "delete_incident st x = (Inl NotFound, st)"
proof -
  from assms have "update_scan (incidents st) x (update_status u) = None"
    using update_scan_None_iff [of "incidents st" x "update_status u"] by blast
  then show "update_incident st x u = (Inl NotFound, st)" by (simp add: update_incident_def)
  from assms have "delete_scan (incidents st) x = None"
    using delete_scan_None_iff [of "incidents st" x] by blast
  then show "delete_incident st x = (Inl NotFound, st)" by (simp add: delete_incident_def)
qed

lemma delete_then_get:
  assumes "distinct (map inc_id (incidents st))" and "x \<in> set (map inc_id (incidents st))"
  shows "\<exists>d st'. delete_incident st x = (Inr d, st') \<and> get_incident st x = Inr d
     \<and> inc_id d = x \<and> d \<in> set (incidents st) \<and> id_counter st' = id_counter st
     \<and> get_incident st' x = Inl NotFound"
proof -
  from assms(2) obtain p where "delete_scan (incidents st) x = Some p"
    using delete_scan_None_iff [of "incidents st" x] by (cases "delete_scan (incidents st) x") auto
  then obtain d xs' where scan: "delete_scan (incidents st) x = Some (d, xs')"
    by (cases p) simp
  from delete_scan_Some [OF scan] obtain ys zs where
    split: "incidents st = ys @ d # zs" "xs' = ys @ zs" "inc_id d = x" by blast
  define st' where "st' = st\<lparr>incidents := xs'\<rparr>"
  have del: "delete_incident st x = (Inr d, st')"
    by (simp add: delete_incident_def scan st'_def)
  have get: "get_incident st x = Inr d"
    using find_delete_same [OF scan] by (simp add: get_incident_def)
  from assms(1) split have "x \<notin> set (map inc_id (incidents st'))"
    by (auto simp: st'_def)
  then have gone: "get_incident st' x = Inl NotFound"
    using get_incident_not_found_iff [of st' x] by blast
  have "d \<in> set (incidents st)" by (simp add: split(1))
  moreover have "id_counter st' = id_counter st" by (simp add: st'_def)
  ultimately show ?thesis using del get gone split(3) by blast
qed

text \<open>
  C7: in every state that a sequence of requests reaches from the seed, get, update and
  delete of an id fail with NotFound exactly when no incident of the collection has the
  id; such a failure of update or delete leaves the store as it was (get never writes).
  A delete of an id that is present returns the incident that get returned for the id,
  and get of the id on the store it leaves fails with NotFound.
\<close>

theorem not_found_iff_absent:
  assumes "st = run seed_store reqs"
  shows "(get_incident st x = Inl NotFound) = (x \<notin> set (map inc_id (incidents st)))
     \<and> (fst (update_incident st x u) = Inl NotFound) = (x \<notin> set (map inc_id (incidents st)))
     \<and> (fst (delete_incident st x) = Inl NotFound) = (x \<notin> set (map inc_id (incidents st)))
     \<and> (x \<notin> set (map inc_id (incidents st)) \<longrightarrow>
          update_incident st x u = (Inl NotFound, st) \<and> delete_incident st x = (Inl NotFound, st))
     \<and> (x \<in> set (map inc_id (incidents st)) \<longrightarrow>
          (\<exists>d st'. delete_incident st x = (Inr d, st') \<and> get_incident st x = Inr d
             \<and> inc_id d = x \<and> d \<in> set (incidents st) \<and> id_counter st' = id_counter st
             \<and> get_incident st' x = Inl NotFound))"
proof -
  have "store_inv st"
    unfolding assms by (rule store_inv_run) (rule store_inv_seed)
  then have "distinct (map inc_id (incidents st))" by (rule store_inv_distinct)
  then show ?thesis
    using get_incident_not_found_iff [of st x] update_incident_not_found_iff [of st x u]
      delete_incident_not_found_iff [of st x] not_found_unchanged(1) [of x st u]
      not_found_unchanged(2) [of x st]
      delete_then_get [of st x]
    by blast
qed

lemma run_delete_2:
  "run seed_store [Delete 2] =
     \<lparr>incidents = [seed_incidents ! 0, seed_incidents ! 2], id_counter = 3\<rparr>"
  by (simp add: seed_store_def seed_incidents_def delete_incident_def)

theorem not_found_iff_absent_witness:
  "get_incident (run seed_store [Delete 2]) 2 = Inl NotFound
   \<and> update_incident (run seed_store [Delete 2]) 2 (IncidentUpdate ''closed'')
       = (Inl NotFound, run seed_store [Delete 2])
   \<and> delete_incident (run seed_store [Delete 2]) 2 = (Inl NotFound, run seed_store [Delete 2])
   \<and> delete_incident (run seed_store [Delete 2]) 1
       = (Inr (seed_incidents ! 0), \<lparr>incidents = [seed_incidents ! 2], id_counter = 3\<rparr>)
   \<and> get_incident \<lparr>incidents = [seed_incidents ! 2], id_counter = 3\<rparr> 1 = Inl NotFound"
proof -
  have absent: "2 \<notin> set (map inc_id (incidents (run seed_store [Delete 2])))"
    and present: "1 \<in> set (map inc_id (incidents (run seed_store [Delete 2])))"
    unfolding run_delete_2 by (simp_all add: seed_incidents_def)
  have del: "delete_incident (run seed_store [Delete 2]) 1
       = (Inr (seed_incidents ! 0), \<lparr>incidents = [seed_incidents ! 2], id_counter = 3\<rparr>)"
    unfolding run_delete_2 by (simp add: delete_incident_def seed_incidents_def)
  from not_found_iff_absent [OF refl, of "[Delete 2]" 2 "IncidentUpdate ''closed''"] absent
  have a: "get_incident (run seed_store [Delete 2]) 2 = Inl NotFound"
    "update_incident (run seed_store [Delete 2]) 2 (IncidentUpdate ''closed'')
       = (Inl NotFound, run seed_store [Delete 2])"
    "delete_incident (run seed_store [Delete 2]) 2 = (Inl NotFound, run seed_store [Delete 2])"
    by blast+
  from not_found_iff_absent [OF refl, of "[Delete 2]" 1 "IncidentUpdate ''closed''"] present
  obtain d st' where "delete_incident (run seed_store [Delete 2]) 1 = (Inr d, st')"
    "get_incident st' 1 = Inl NotFound"
    by blast
  with del have "get_incident \<lparr>incidents = [seed_incidents ! 2], id_counter = 3\<rparr> 1 = Inl NotFound"
    by simp
  with a del show ?thesis by simp
qed

subsection \<open>Update of the status\<close>

text \<open>
  C8: when some incident has the id, update returns the first such incident with the
  new status and writes it back at the same position k. Its id, title and severity are
  as before, every incident at another position is unchanged, the length and the order
  of the collection are as before, and the counter is untouched.
\<close>

theorem update_status_frame:
  assumes "x \<in> set (map inc_id (incidents st))"
  shows "\<exists>k updated st'. update_incident st x (IncidentUpdate s) = (Inr updated, st')
      \<and> k < length (incidents st) \<and> inc_id (incidents st ! k) = x
      \<and> (\<forall>j<k. inc_id (incidents st ! j) \<noteq> x)
      \<and> updated = (incidents st ! k)\<lparr>status := s\<rparr>
      \<and> status updated = s
      \<and> inc_id updated = x
      \<and> title updated = title (incidents st ! k)
      \<and> severity updated = severity (incidents st ! k)
      \<and> incidents st' = (incidents st)[k := updated]
      \<and> length (incidents st') = length (incidents st)
      \<and> map inc_id (incidents st') = map inc_id (incidents st)
      \<and> (\<forall>j<length (incidents st). j \<noteq> k \<longrightarrow> incidents st' ! j = incidents st ! j)
      \<and> id_counter st' = id_counter st"
proof -
  from assms obtain p where "update_scan (incidents st) x s = Some p"
    using update_scan_None_iff [of "incidents st" x s]
    by (cases "update_scan (incidents st) x s") auto
  then obtain updated xs' where scan: "update_scan (incidents st) x s = Some (updated, xs')"
    by (cases p) simp
  from update_scan_Some [OF scan] obtain k where k: "k < length (incidents st)"
    "inc_id (incidents st ! k) = x" "\<forall>j<k. inc_id (incidents st ! j) \<noteq> x"
    "updated = (incidents st ! k)\<lparr>status := s\<rparr>" "xs' = (incidents st)[k := updated]"
    by blast
  define st' where "st' = st\<lparr>incidents := xs'\<rparr>"
  have upd: "update_incident st x (IncidentUpdate s) = (Inr updated, st')"
    by (simp add: update_incident_def scan st'_def)
  have f1: "status updated = s" "inc_id updated = x" "title updated = title (incidents st ! k)"
    "severity updated = severity (incidents st ! k)"
    using k(2) by (simp_all add: k(4))
  have f2: "incidents st' = (incidents st)[k := updated]"
    "length (incidents st') = length (incidents st)" "id_counter st' = id_counter st"
    by (simp_all add: st'_def k(5))
  have f3: "map inc_id (incidents st') = map inc_id (incidents st)"
    using update_scan_ids [OF scan] by (simp add: st'_def)
  have f4: "\<forall>j<length (incidents st). j \<noteq> k \<longrightarrow> incidents st' ! j = incidents st ! j"
    by (simp add: f2(1))
  from upd k(1,2,3,4) f1 f2 f3 f4 show ?thesis by blast
qed

theorem update_status_frame_witness:
  "1 \<in> set (map inc_id (incidents seed_store))
   \<and> update_incident seed_store 1 (IncidentUpdate ''closed'')
       = (Inr ((seed_incidents ! 0)\<lparr>status := ''closed''\<rparr>),
          \<lparr>incidents = [(seed_incidents ! 0)\<lparr>status := ''closed''\<rparr>,
             seed_incidents ! 1, seed_incidents ! 2], id_counter = 3\<rparr>)"
proof -
  have p: "1 \<in> set (map inc_id (incidents seed_store))"
    by (simp add: seed_store_def seed_incidents_def)
  from update_status_frame [OF p, of "''closed''"]
  obtain k updated st' where u:
    "update_incident seed_store 1 (IncidentUpdate ''closed'') = (Inr updated, st')"
    "k < length (incidents seed_store)" "inc_id (incidents seed_store ! k) = 1"
    "\<forall>j<k. inc_id (incidents seed_store ! j) \<noteq> 1"
    "updated = (incidents seed_store ! k)\<lparr>status := ''closed''\<rparr>"
    "incidents st' = (incidents seed_store)[k := updated]"
    "id_counter st' = id_counter seed_store"
    by blast
  have "k = 0"
  proof (rule ccontr)
    assume "k \<noteq> 0"
    then have "0 < k" by simp
    with u(4) have "inc_id (incidents seed_store ! 0) \<noteq> 1" by blast
    then show False by (simp add: seed_store_def seed_incidents_def)
  qed
  with u(5,6,7) have "updated = (seed_incidents ! 0)\<lparr>status := ''closed''\<rparr>"
    and "st' = \<lparr>incidents = [(seed_incidents ! 0)\<lparr>status := ''closed''\<rparr>,
             seed_incidents ! 1, seed_incidents ! 2], id_counter = 3\<rparr>"
    by (simp_all add: seed_store_def seed_incidents_def)
  with u(1) p show ?thesis by simp
qed
subsection \<open>The store along every sequence of requests\<close>

lemma delete_removes_one:
  assumes "distinct (map inc_id (incidents st))" and "x \<in> set (map inc_id (incidents st))"
  shows "\<exists>d ys zs. delete_incident st x = (Inr d, st\<lparr>incidents := ys @ zs\<rparr>)
     \<and> incidents st = ys @ d # zs \<and> x \<notin> set (map inc_id (ys @ zs))"
proof -
  from assms(2) obtain p where "delete_scan (incidents st) x = Some p"
    using delete_scan_None_iff [of "incidents st" x] by (cases "delete_scan (incidents st) x") auto
  then obtain d xs' where scan: "delete_scan (incidents st) x = Some (d, xs')"
    by (cases p) simp
  from delete_scan_Some [OF scan] obtain ys zs where
    split: "incidents st = ys @ d # zs" "xs' = ys @ zs" "inc_id d = x" by blast
  have "delete_incident st x = (Inr d, st\<lparr>incidents := ys @ zs\<rparr>)"
    by (simp add: delete_incident_def scan split(2))
  moreover from assms(1) split have "x \<notin> set (map inc_id (ys @ zs))" by auto
  ultimately show ?thesis using split(1) by blast
qed

text \<open>
  C9: let st be the state after any sequence of create, update and delete requests from
  the seed, and let issued be the ids of the seed followed by the ids that the creates
  of the sequence returned. The ids of the collection are pairwise distinct; no id was
  issued twice, and the next create returns an id that was never issued, deleted or not;
  the surviving incidents stand in the order of their issue; a create appends, an update
  keeps the ids in place, and a successful delete removes exactly one element and keeps
  the others in order.
\<close>

theorem store_invariant:
  assumes "st = run seed_store reqs"
    and "issued = map inc_id (incidents seed_store) @ created_ids seed_store reqs"
  shows "distinct (map inc_id (incidents st))
     \<and> distinct issued
     \<and> inc_id (fst (create_incident st d)) \<notin> set issued
     \<and> subseq (map inc_id (incidents st)) issued
     \<and> incidents (snd (create_incident st d)) = incidents st @ [fst (create_incident st d)]
     \<and> map inc_id (incidents (snd (update_incident st x u))) = map inc_id (incidents st)
     \<and> (x \<in> set (map inc_id (incidents st)) \<longrightarrow>
          (\<exists>del ys zs. delete_incident st x = (Inr del, st\<lparr>incidents := ys @ zs\<rparr>)
             \<and> incidents st = ys @ del # zs \<and> x \<notin> set (map inc_id (ys @ zs))))"
proof -
  have inv: "store_inv st"
    unfolding assms(1) by (rule store_inv_run) (rule store_inv_seed)
  have d1: "distinct (map inc_id (incidents st))"
    using inv by (rule store_inv_distinct)
  have "sorted_wrt (<) issued"
    unfolding assms(2) using store_inv_seed by (rule issued_increasing)
  then have d2: "distinct issued" by (simp add: strict_sorted_iff)
  have below: "v \<le> id_counter st" if "v \<in> set issued" for v
  proof (cases "v \<in> set (map inc_id (incidents seed_store))")
    case True
    from store_inv_ids_below [OF store_inv_seed True] counter_run [of seed_store reqs]
    show ?thesis by (simp add: assms(1))
  next
    case False
    with that have "v \<in> set (created_ids seed_store reqs)" by (simp add: assms(2))
    from created_ids_bounds [OF this] show ?thesis by (simp add: assms(1))
  qed
  have fresh: "inc_id (fst (create_incident st d)) \<notin> set issued"
  proof
    assume "inc_id (fst (create_incident st d)) \<in> set issued"
    from below [OF this] show False by (simp add: create_incident_eq)
  qed
  have order: "subseq (map inc_id (incidents st)) issued"
    unfolding assms by (rule survivors_in_issue_order)
  have app: "incidents (snd (create_incident st d)) = incidents st @ [fst (create_incident st d)]"
    by (simp add: create_incident_eq)
  have upd: "map inc_id (incidents (snd (update_incident st x u))) = map inc_id (incidents st)"
    by (auto simp: update_incident_def update_scan_ids split: option.splits)
  from d1 d2 fresh order app upd delete_removes_one [OF d1, of x] show ?thesis by blast
qed

lemma sample_run:
  "run seed_store [Create (IncidentCreate ''X'' ''open'' ''low''),
      Update 1 (IncidentUpdate ''closed''), Delete 2]
   = \<lparr>incidents =
        [\<lparr>inc_id = 1, title = ''Phishing Email Campaign Detected'',
           status = ''closed'', severity = ''high''\<rparr>,
         \<lparr>inc_id = 3, title = ''Suspicious Login from Foreign IP'',
           status = ''under investigation'', severity = ''low''\<rparr>,
         \<lparr>inc_id = 4, title = ''X'', status = ''open'', severity = ''low''\<rparr>],
      id_counter = 4\<rparr>"
  by (simp add: seed_store_def seed_incidents_def create_incident_eq update_incident_def
      delete_incident_def)

lemma sample_created:
  "created_ids seed_store [Create (IncidentCreate ''X'' ''open'' ''low''),
      Update 1 (IncidentUpdate ''closed''), Delete 2] = [4]"
  by (simp add: seed_store_def seed_incidents_def create_incident_eq update_incident_def
      delete_incident_def)

lemma sample_delete:
  "delete_incident
     (run seed_store [Create (IncidentCreate ''X'' ''open'' ''low''),
        Update 1 (IncidentUpdate ''closed''), Delete 2]) 3
   = (Inr (seed_incidents ! 2),
      \<lparr>incidents =
        [\<lparr>inc_id = 1, title = ''Phishing Email Campaign Detected'',
           status = ''closed'', severity = ''high''\<rparr>,
         \<lparr>inc_id = 4, title = ''X'', status = ''open'', severity = ''low''\<rparr>],
      id_counter = 4\<rparr>)"
  unfolding sample_run by (simp add: delete_incident_def seed_incidents_def)

theorem store_invariant_witness:
  "run seed_store [Create (IncidentCreate ''X'' ''open'' ''low''),
      Update 1 (IncidentUpdate ''closed''), Delete 2]
   = \<lparr>incidents =
        [\<lparr>inc_id = 1, title = ''Phishing Email Campaign Detected'',
           status = ''closed'', severity = ''high''\<rparr>,
         \<lparr>inc_id = 3, title = ''Suspicious Login from Foreign IP'',
           status = ''under investigation'', severity = ''low''\<rparr>,
         \<lparr>inc_id = 4, title = ''X'', status = ''open'', severity = ''low''\<rparr>],
      id_counter = 4\<rparr>
   \<and> map inc_id (incidents seed_store) @ created_ids seed_store
        [Create (IncidentCreate ''X'' ''open'' ''low''),
         Update 1 (IncidentUpdate ''closed''), Delete 2] = [1, 2, 3, 4]
   \<and> distinct [1, 3, 4 :: int]
   \<and> distinct [1, 2, 3, 4 :: int]
   \<and> subseq [1, 3, 4 :: int] [1, 2, 3, 4]
   \<and> (5::int) \<notin> set [1, 2, 3, 4]
   \<and> (3::int) \<in> set [1, 3, 4]
   \<and> delete_incident
        (run seed_store [Create (IncidentCreate ''X'' ''open'' ''low''),
           Update 1 (IncidentUpdate ''closed''), Delete 2]) 3
      = (Inr (seed_incidents ! 2),
         \<lparr>incidents =
           [\<lparr>inc_id = 1, title = ''Phishing Email Campaign Detected'',
              status = ''closed'', severity = ''high''\<rparr>,
            \<lparr>inc_id = 4, title = ''X'', status = ''open'', severity = ''low''\<rparr>],
          id_counter = 4\<rparr>)"
proof -
  have issued: "map inc_id (incidents seed_store) @ created_ids seed_store
        [Create (IncidentCreate ''X'' ''open'' ''low''),
         Update 1 (IncidentUpdate ''closed''), Delete 2] = [1, 2, 3, 4]"
    unfolding sample_created by (simp add: seed_store_def seed_incidents_def)
  from store_invariant [OF refl refl,
      of "[Create (IncidentCreate ''X'' ''open'' ''low''),
          Update 1 (IncidentUpdate ''closed''), Delete 2]"
         "IncidentCreate ''Y'' ''open'' ''high''" 3 "IncidentUpdate ''closed''"]
  have "distinct [1, 3, 4 :: int] \<and> distinct [1, 2, 3, 4 :: int]
      \<and> (5::int) \<notin> set [1, 2, 3, 4] \<and> subseq [1, 3, 4 :: int] [1, 2, 3, 4]"
    unfolding issued sample_run by (simp add: create_incident_eq)
  with issued sample_run sample_delete show ?thesis by simp
qed

end
